theory Spec2Isabelle
  imports Complex_Main "HOL-Library.Char_ord" "HOL-Library.List_Lexorder" "HOL-Library.Multiset"
begin

section \<open>Errors raised by the Python code\<close>

text \<open>
  Every exception the modelled functions can raise is a value of \<open>py_error\<close>; a function
  that may raise returns \<open>py_error + 'a\<close> with \<open>Inl\<close> for the exception.
\<close>

datatype py_error = ValueError | AttributeError | OverflowError | IndexError

section \<open>AuthService.verify_telegram_init_data\<close>

text \<open>
  A Python \<open>str\<close> is modelled as a \<open>string\<close>; with \<open>Char_ord\<close> and \<open>List_Lexorder\<close> the order
  on strings is the lexicographic order on character codes that Python's \<open>sort\<close> uses for
  the keys. A \<open>char\<close> is one of 256 codes, so code points above 255 are not represented.

  \<open>split_on c s\<close> is \<open>s.split(c)\<close> for a one-character separator: it always returns at least
  one segment, and the split of the empty string is the list of one empty string. A
  character other than the separator joins the first segment of the rest; the rest is
  never empty (\<open>split_on_nonempty\<close> below), so the first branch of the \<open>case\<close> is never
  taken.
\<close>

fun split_on :: "char \<Rightarrow> string \<Rightarrow> string list" where
  "split_on c [] = [ [] ]"
| "split_on c (x # xs) =
     (if x = c then [] # split_on c xs
      else (case split_on c xs of [] \<Rightarrow> [ [x] ] | s # ss \<Rightarrow> (x # s) # ss))"

text \<open>\<open>sep.join(xs)\<close>.\<close>

fun join :: "string \<Rightarrow> string list \<Rightarrow> string" where
  "join sep [] = []"
| "join sep [x] = x"
| "join sep (x # y # ys) = x @ sep @ join sep (y # ys)"

text \<open>
  \<open>key, value = pair.split('=')\<close>: the unpacking into two targets raises \<open>ValueError\<close> unless
  the split has exactly two parts.
\<close>

definition unpack_pair :: "string \<Rightarrow> py_error + (string \<times> string)" where
  "unpack_pair pair =
     (case split_on (CHR ''='') pair of
        [key, val] \<Rightarrow> Inr (key, val)
      | _ \<Rightarrow> Inl ValueError)"

text \<open>
  The \<open>for pair in init_data.split('&')\<close> loop, with the two loop variables \<open>data_pairs\<close> and
  \<open>hash_value\<close> as accumulators. A later \<open>hash\<close> pair overwrites an earlier one.
\<close>

fun parse_pairs ::
  "string list \<Rightarrow> (string \<times> string) list \<Rightarrow> string option
     \<Rightarrow> py_error + ((string \<times> string) list \<times> string option)" where
  "parse_pairs [] data_pairs hash_value = Inr (data_pairs, hash_value)"
| "parse_pairs (pair # rest) data_pairs hash_value =
     (case unpack_pair pair of
        Inl e \<Rightarrow> Inl e
      | Inr (key, val) \<Rightarrow>
          if key = ''hash'' then parse_pairs rest data_pairs (Some val)
          else parse_pairs rest (data_pairs @ [(key, val)]) hash_value)"

text \<open>The f-string \<open>f"{k}={v}"\<close>.\<close>

definition render_pair :: "string \<times> string \<Rightarrow> string" where
  "render_pair p = fst p @ ''='' @ snd p"

text \<open>
  \<open>data_pairs.sort(key=lambda x: x[0])\<close> followed by the join with a newline. Python's sort
  is stable, and so is \<open>sort_key\<close>.
\<close>

definition data_check_string :: "(string \<times> string) list \<Rightarrow> string" where
  "data_check_string data_pairs = join [CHR 0x0A] (map render_pair (sort_key fst data_pairs))"

text \<open>
  The body of the \<open>try\<close> block. The two hash functions belong to Python's standard library
  and are parameters here: \<open>sha256 s\<close> stands for \<open>hashlib.sha256(s.encode()).digest()\<close> and
  \<open>hmac_hex k m\<close> for \<open>hmac.new(k, m.encode(), hashlib.sha256).hexdigest()\<close>. The module
  constant \<open>BOT_TOKEN\<close> is \<open>os.getenv("BOT_TOKEN")\<close>, which is \<open>None\<close> when the variable is not
  set; \<open>None.encode()\<close> raises \<open>AttributeError\<close>. \<open>not hash_value\<close> holds for \<open>None\<close> and for the
  empty string.
\<close>

definition verify_try ::
  "(string \<Rightarrow> string) \<Rightarrow> (string \<Rightarrow> string \<Rightarrow> string) \<Rightarrow> string option \<Rightarrow> string
     \<Rightarrow> py_error + bool" where
  "verify_try sha256 hmac_hex BOT_TOKEN init_data =
     (case parse_pairs (split_on (CHR ''&'') init_data) [] None of
        Inl e \<Rightarrow> Inl e
      | Inr (data_pairs, hash_value) \<Rightarrow>
          (case hash_value of
             None \<Rightarrow> Inr False
           | Some h \<Rightarrow>
               if h = [] then Inr False
               else (case BOT_TOKEN of
                       None \<Rightarrow> Inl AttributeError
                     | Some tok \<Rightarrow>
                         Inr (hmac_hex (sha256 tok) (data_check_string data_pairs) = h))))"

text \<open>The whole function: \<open>except Exception\<close> logs and returns \<open>False\<close>.\<close>

definition verify_telegram_init_data ::
  "(string \<Rightarrow> string) \<Rightarrow> (string \<Rightarrow> string \<Rightarrow> string) \<Rightarrow> string option \<Rightarrow> string \<Rightarrow> bool" where
  "verify_telegram_init_data sha256 hmac_hex BOT_TOKEN init_data =
     (case verify_try sha256 hmac_hex BOT_TOKEN init_data of
        Inl e \<Rightarrow> False
      | Inr b \<Rightarrow> b)"

text \<open>
  The shape of a \<open>hexdigest()\<close> of SHA-256: 64 characters, each a lowercase hexadecimal digit.
\<close>

definition hexdigest_shape :: "string \<Rightarrow> bool" where
  "hexdigest_shape s \<longleftrightarrow> length s = 64 \<and> set s \<subseteq> set ''0123456789abcdef''"

text \<open>
  A stand-in pair of hash functions with the shape of the real ones, used only to run
  \<open>verify_telegram_init_data\<close> on concrete payloads. Every general theorem below holds for
  all hash functions of that shape.
\<close>

definition toy_sha256 :: "string \<Rightarrow> string" where
  "toy_sha256 tok = rev tok"

definition toy_hmac_hex :: "string \<Rightarrow> string \<Rightarrow> string" where
  "toy_hmac_hex k m =
     ''000000000000000000000000000000000000000000000000000000000000000'' @
     [''0123456789abcdef'' ! ((sum_list (map of_char (k @ m)) :: nat) mod 16)]"

text \<open>
  The payload the first testable property speaks of: the pairs \<open>ps\<close> rendered as
  \<open>key=value\<close>, a \<open>hash\<close> pair with value \<open>h\<close> placed after the first \<open>n\<close> of them, all
  joined with \<open>&\<close>.
\<close>

definition payload_at :: "(string \<times> string) list \<Rightarrow> nat \<Rightarrow> string \<Rightarrow> string" where
  "payload_at ps n h =
     join ''&'' (map render_pair (take n ps) @ [''hash='' @ h] @ map render_pair (drop n ps))"

text \<open>A key or value that contains neither separator of the payload format.\<close>

definition plain :: "string \<Rightarrow> bool" where
  "plain s \<longleftrightarrow> CHR ''&'' \<notin> set s \<and> CHR ''='' \<notin> set s"

definition plain_pair :: "string \<times> string \<Rightarrow> bool" where
  "plain_pair p \<longleftrightarrow> plain (fst p) \<and> plain (snd p) \<and> fst p \<noteq> ''hash''"

text \<open>
  Step 1 of the specification's algorithm, in its words: split each segment on the first
  \<open>=\<close> into key and value; a segment with no \<open>=\<close> is malformed.
\<close>

definition seg_key :: "string \<Rightarrow> string" where
  "seg_key s = takeWhile (\<lambda>c. c \<noteq> CHR ''='') s"

definition seg_value :: "string \<Rightarrow> string" where
  "seg_value s = tl (dropWhile (\<lambda>c. c \<noteq> CHR ''='') s)"

definition spec_split_first :: "string \<Rightarrow> py_error + (string \<times> string)" where
  "spec_split_first pair =
     (if CHR ''='' \<in> set pair then Inr (seg_key pair, seg_value pair) else Inl ValueError)"

text \<open>The value of the last segment whose key is \<open>hash\<close>, or \<open>h\<close> when there is none.\<close>

fun last_hash :: "string list \<Rightarrow> string option \<Rightarrow> string option" where
  "last_hash [] h = h"
| "last_hash (s # ss) h = last_hash ss (if seg_key s = ''hash'' then Some (seg_value s) else h)"

section \<open>CaseService.open_case\<close>

text \<open>
  An element of the list that \<open>get_case_nfts\<close> builds: a dictionary with the keys \<open>id\<close>,
  \<open>name\<close>, \<open>description\<close>, \<open>rarity\<close>, \<open>price\<close>, \<open>image_url\<close> and \<open>chance\<close>. The \<open>Float\<close> column
  \<open>chance\<close> is a \<open>real\<close> here: the sums of weights below are exact, where Python rounds each
  to a double.
\<close>

record case_item =
  item_id :: int
  item_name :: string
  item_description :: "string option"
  item_rarity :: string
  item_price :: int
  item_image_url :: "string option"
  chance :: real

text \<open>\<open>itertools.accumulate(weights)\<close>: the running sums, started from \<open>acc\<close>.\<close>

fun accumulate_from :: "real \<Rightarrow> real list \<Rightarrow> real list" where
  "accumulate_from acc [] = []"
| "accumulate_from acc (w # ws) = (acc + w) # accumulate_from (acc + w) ws"

definition accumulate :: "real list \<Rightarrow> real list" where
  "accumulate ws = accumulate_from 0 ws"

text \<open>
  \<open>bisect.bisect(a, x, lo, hi)\<close> of the standard library, the binary search that
  \<open>random.choices\<close> runs on the cumulative weights:
  \<^verbatim>\<open>
    while lo < hi:
        mid = (lo + hi) // 2
        if x < a[mid]: hi = mid
        else: lo = mid + 1
    return lo
  \<close>
\<close>

function bisect :: "real list \<Rightarrow> real \<Rightarrow> nat \<Rightarrow> nat \<Rightarrow> nat" where
  "bisect a x lo hi =
     (if lo < hi
      then (if x < a ! ((lo + hi) div 2)
            then bisect a x lo ((lo + hi) div 2)
            else bisect a x ((lo + hi) div 2 + 1) hi)
      else lo)"
  by pat_completeness auto
termination
  by (relation "measure (\<lambda>(a, x, lo, hi). hi - lo)") auto

declare bisect.simps [simp del]

text \<open>
  \<open>random.choices(population, weights=weights, k=1)[0]\<close> of the standard library, with the
  value \<open>u\<close> of \<open>random()\<close>, a number in \<open>[0, 1)\<close>, as a parameter:
  \<^verbatim>\<open>
    cum_weights = list(accumulate(weights))
    if len(cum_weights) != n: raise ValueError
    total = cum_weights[-1] + 0.0
    if total <= 0.0: raise ValueError
    hi = n - 1
    return [population[bisect(cum_weights, random() * total, 0, hi)]]
  \<close>
  \<open>cum_weights[-1]\<close> raises \<open>IndexError\<close> on an empty list.
\<close>

definition choices :: "real \<Rightarrow> 'a list \<Rightarrow> real list \<Rightarrow> py_error + 'a" where
  "choices u population weights =
     (let cum_weights = accumulate weights; n = length population in
      if length cum_weights \<noteq> n then Inl ValueError
      else if cum_weights = [] then Inl IndexError
      else (let total = last cum_weights in
            if total \<le> 0 then Inl ValueError
            else Inr (population ! bisect cum_weights (u * total) 0 (n - 1))))"

text \<open>
  \<open>CaseService.open_case\<close>: \<open>None\<close> for an empty list, otherwise one draw. The loop that
  fills \<open>items\<close> and \<open>weights\<close> copies the list and maps it to the chances.
\<close>

definition open_case :: "real \<Rightarrow> case_item list \<Rightarrow> py_error + case_item option" where
  "open_case u case_nfts =
     (if case_nfts = [] then Inr None
      else (case choices u case_nfts (map chance case_nfts) of
              Inl e \<Rightarrow> Inl e
            | Inr selected \<Rightarrow> Inr (Some selected)))"

section \<open>The sale price: \<open>int(nft.price * SELL_PERCENT)\<close>\<close>

text \<open>
  \<open>SELL_PERCENT = 0.7\<close> is a double, so \<open>nft.price * SELL_PERCENT\<close> converts the integer to a
  double, multiplies two doubles and rounds the product to a double; \<open>int\<close> then truncates
  towards zero. All of this is exact integer arithmetic:
  \<^item> a positive double is \<open>m * 2^e\<close> with \<open>m < 2^53\<close>; rounding a positive number to a
    double keeps its 53 leading bits, to nearest, ties to even (\<open>round53\<close>, on a
    numerator, the power of two left aside);
  \<^item> the double nearest to \<open>0.7\<close> is \<open>3152519739159347 / 2^52\<close>
    (\<open>(0.7).as_integer_ratio()\<close>);
  \<^item> the conversion of an integer whose rounded magnitude reaches \<open>2^1024\<close> raises
    \<open>OverflowError\<close>.
  The products that arise are above the subnormal range and below the overflow threshold,
  so rounding the numerator is rounding the double.
\<close>

fun bit_length :: "nat \<Rightarrow> nat" where
  "bit_length n = (if n = 0 then 0 else Suc (bit_length (n div 2)))"

declare bit_length.simps [simp del]

definition round53 :: "nat \<Rightarrow> nat" where
  "round53 n =
     (let b = bit_length n in
      if b \<le> 53 then n
      else (let s = b - 53; q = n div 2 ^ s; r = n mod 2 ^ s; h = 2 ^ (s - 1) in
            (if h < r \<or> (r = h \<and> odd q) then q + 1 else q) * 2 ^ s))"

definition SELL_PERCENT_numerator :: nat where
  "SELL_PERCENT_numerator = 3152519739159347"

definition sell_price_of :: "int \<Rightarrow> py_error + int" where
  "sell_price_of price =
     (let f = round53 (nat \<bar>price\<bar>) in
      if 2 ^ 1024 \<le> f then Inl OverflowError
      else Inr (sgn price * int (round53 (f * SELL_PERCENT_numerator) div 2 ^ 52)))"

section \<open>The tables\<close>

text \<open>
  The rows of the SQLAlchemy models with the columns the services read or write; the
  timestamps are left out. A table is the list of its rows in insertion order, and
  \<open>query.filter(...).first()\<close> is \<open>find\<close>.
\<close>

record user =
  u_id :: int
  telegram_id :: int
  username :: "string option"
  first_name :: "string option"
  last_name :: "string option"
  stars_balance :: int
  total_spent_stars :: int
  total_cases_opened :: int

record nft =
  nft_id :: int
  nft_name :: string
  nft_description :: "string option"
  nft_rarity :: string
  nft_price :: int
  nft_image_url :: "string option"
  nft_is_active :: bool

record case_row =
  case_id :: int
  case_name :: string
  price_stars :: int
  case_is_active :: bool

record case_nft =
  cn_id :: int
  cn_case_id :: int
  cn_nft_id :: int
  cn_chance :: real
  cn_is_active :: bool

record user_nft =
  un_id :: int
  un_user_id :: int
  un_nft_id :: int
  is_sold :: bool
  sold_price :: "int option"
  opened_from_case_id :: "int option"

record opening_record =
  oh_id :: int
  oh_user_id :: int
  oh_case_id :: int
  oh_nft_id :: int
  stars_spent :: int

record db =
  users :: "user list"
  nfts :: "nft list"
  cases :: "case_row list"
  case_nfts :: "case_nft list"
  user_nfts :: "user_nft list"
  opening_history :: "opening_record list"

text \<open>The autoincrement primary key of a new row.\<close>

definition fresh_id :: "int list \<Rightarrow> int" where
  "fresh_id ids = (if ids = [] then 1 else Max (set ids) + 1)"

section \<open>CaseService.get_case_nfts\<close>

text \<open>
  The join of \<open>case_nfts\<close> with \<open>nfts\<close> on the item id, filtered by the case and by both
  \<open>is_active\<close> flags, each row turned into the dictionary of the draw.
\<close>

definition item_of :: "case_nft \<Rightarrow> nft \<Rightarrow> case_item" where
  "item_of cn n =
     \<lparr>item_id = nft_id n, item_name = nft_name n, item_description = nft_description n,
      item_rarity = nft_rarity n, item_price = nft_price n, item_image_url = nft_image_url n,
      chance = cn_chance cn\<rparr>"

definition get_case_nfts :: "db \<Rightarrow> int \<Rightarrow> case_item list" where
  "get_case_nfts d cid =
     concat (map (\<lambda>cn. map (item_of cn)
                          (filter (\<lambda>n. nft_id n = cn_nft_id cn \<and> nft_is_active n) (nfts d)))
                 (filter (\<lambda>cn. cn_case_id cn = cid \<and> cn_is_active cn) (case_nfts d)))"

section \<open>UserService\<close>

text \<open>
  \<open>get_or_create_user\<close>: the first user with the telegram id, or a new row with the
  starting balance of 1000; the column defaults give the two counters the value 0.
\<close>

definition get_or_create_user ::
  "db \<Rightarrow> int \<Rightarrow> string option \<Rightarrow> string option \<Rightarrow> string option \<Rightarrow> user \<times> db" where
  "get_or_create_user d tid uname fname lname =
     (case find (\<lambda>u. telegram_id u = tid) (users d) of
        Some u \<Rightarrow> (u, d)
      | None \<Rightarrow>
          (let u = \<lparr>u_id = fresh_id (map u_id (users d)), telegram_id = tid, username = uname,
                    first_name = fname, last_name = lname, stars_balance = 1000,
                    total_spent_stars = 0, total_cases_opened = 0\<rparr>
           in (u, d\<lparr>users := users d @ [u]\<rparr>)))"

text \<open>\<open>add_nft_to_inventory\<close>: a new unsold entry.\<close>

definition add_nft_to_inventory :: "db \<Rightarrow> int \<Rightarrow> int \<Rightarrow> int \<Rightarrow> user_nft \<times> db" where
  "add_nft_to_inventory d uid nid cid =
     (let e = \<lparr>un_id = fresh_id (map un_id (user_nfts d)), un_user_id = uid, un_nft_id = nid,
               is_sold = False, sold_price = None, opened_from_case_id = Some cid\<rparr>
      in (e, d\<lparr>user_nfts := user_nfts d @ [e]\<rparr>))"

text \<open>\<open>get_user_nfts\<close>: the unsold entries of the user, joined with their items.\<close>

definition get_user_nfts :: "db \<Rightarrow> int \<Rightarrow> (user_nft \<times> nft) list" where
  "get_user_nfts d uid =
     concat (map (\<lambda>e. map (\<lambda>n. (e, n)) (filter (\<lambda>n. nft_id n = un_nft_id e) (nfts d)))
                 (filter (\<lambda>e. un_user_id e = uid \<and> \<not> is_sold e) (user_nfts d)))"

text \<open>
  \<open>sell_nft\<close> returns \<open>None\<close> when no entry has the id, the owner and \<open>is_sold == False\<close>.
  Otherwise it reads the item and the user; \<open>nft.price\<close> on a missing item and
  \<open>user.stars_balance\<close> on a missing user raise \<open>AttributeError\<close>. The two attribute writes
  reach the tables at \<open>db.commit()\<close>, as updates of the rows with the primary key of the
  object, so an exception before the commit leaves the tables as they were. The result is
  the return value or the exception, with the tables after the call.
\<close>

definition sell_nft :: "db \<Rightarrow> int \<Rightarrow> int \<Rightarrow> (py_error + int option) \<times> db" where
  "sell_nft d user_nft_id uid =
     (case find (\<lambda>e. un_id e = user_nft_id \<and> un_user_id e = uid \<and> \<not> is_sold e) (user_nfts d) of
        None \<Rightarrow> (Inr None, d)
      | Some e \<Rightarrow>
          (case find (\<lambda>n. nft_id n = un_nft_id e) (nfts d) of
             None \<Rightarrow> (Inl AttributeError, d)
           | Some n \<Rightarrow>
               (case sell_price_of (nft_price n) of
                  Inl err \<Rightarrow> (Inl err, d)
                | Inr sell_price \<Rightarrow>
                    (case find (\<lambda>u. u_id u = uid) (users d) of
                       None \<Rightarrow> (Inl AttributeError, d)
                     | Some u \<Rightarrow>
                         (Inr (Some sell_price),
                          d\<lparr>user_nfts :=
                               map (\<lambda>x. if un_id x = un_id e
                                         then x\<lparr>is_sold := True, sold_price := Some sell_price\<rparr>
                                         else x) (user_nfts d),
                            users :=
                               map (\<lambda>x. if u_id x = u_id u
                                         then x\<lparr>stars_balance := stars_balance u + sell_price\<rparr>
                                         else x) (users d)\<rparr>)))))"

section \<open>EconomyLedger.openCase\<close>

text \<open>
  Modelled from the spec: the source file ends inside the HTML template, before any
  request handler, so the ledger operation \<open>openCase\<close> is not in it. The definition follows
  the seven steps of section 4.4 of the specification in their order, with
  \<open>get_case_nfts\<close> as the catalog reader and \<open>open_case\<close> as the selector. A failure leaves
  the tables unchanged; a fault of the draw is passed on as \<open>Fault\<close>.
\<close>

datatype ledger_error =
  UserNotFound | CaseNotFound | CaseInactive | EmptyPool | InsufficientFunds | Fault py_error

definition spec_openCase ::
  "real \<Rightarrow> db \<Rightarrow> int \<Rightarrow> int \<Rightarrow> (ledger_error + case_item \<times> int) \<times> db" where
  "spec_openCase draw d uid cid =
     (case find (\<lambda>u. u_id u = uid) (users d) of
        None \<Rightarrow> (Inl UserNotFound, d)
      | Some u \<Rightarrow>
          (case find (\<lambda>c. case_id c = cid) (cases d) of
             None \<Rightarrow> (Inl CaseNotFound, d)
           | Some c \<Rightarrow>
               if \<not> case_is_active c then (Inl CaseInactive, d)
               else if get_case_nfts d cid = [] then (Inl EmptyPool, d)
               else if stars_balance u < price_stars c then (Inl InsufficientFunds, d)
               else (case open_case draw (get_case_nfts d cid) of
                       Inl err \<Rightarrow> (Inl (Fault err), d)
                     | Inr None \<Rightarrow> (Inl EmptyPool, d)
                     | Inr (Some item) \<Rightarrow>
                         (Inr (item, stars_balance u - price_stars c),
                          d\<lparr>users :=
                               map (\<lambda>x. if u_id x = u_id u
                                         then x\<lparr>stars_balance := stars_balance u - price_stars c,
                                                total_spent_stars := total_spent_stars u + price_stars c,
                                                total_cases_opened := total_cases_opened u + 1\<rparr>
                                         else x) (users d),
                            user_nfts := user_nfts d @
                               [\<lparr>un_id = fresh_id (map un_id (user_nfts d)), un_user_id = uid,
                                 un_nft_id = item_id item, is_sold = False, sold_price = None,
                                 opened_from_case_id = Some cid\<rparr>],
                            opening_history := opening_history d @
                               [\<lparr>oh_id = fresh_id (map oh_id (opening_history d)),
                                 oh_user_id = uid, oh_case_id = cid, oh_nft_id = item_id item,
                                 stars_spent = price_stars c\<rparr>]\<rparr>))))"

section \<open>Runs of the operations\<close>

text \<open>One call of an operation that writes to the tables, with any arguments.\<close>

inductive step :: "db \<Rightarrow> db \<Rightarrow> bool" where
  step_create: "step d (snd (get_or_create_user d tid uname fname lname))"
| step_add: "step d (snd (add_nft_to_inventory d uid nid cid))"
| step_sell: "step d (snd (sell_nft d user_nft_id uid))"
| step_open: "step d (snd (spec_openCase draw d uid cid))"

definition balances_nonneg :: "db \<Rightarrow> bool" where
  "balances_nonneg d \<longleftrightarrow> (\<forall>u\<in>set (users d). 0 \<le> stars_balance u)"

definition prices_nonneg :: "db \<Rightarrow> bool" where
  "prices_nonneg d \<longleftrightarrow>
     (\<forall>n\<in>set (nfts d). 0 \<le> nft_price n) \<and> (\<forall>c\<in>set (cases d). 0 \<le> price_stars c)"

section \<open>A small instance of the tables\<close>

text \<open>
  One user with balance 100, two items priced 90 and 100, a case priced 150 that holds the
  first item, and one unsold inventory entry for each item.
\<close>

definition example_db :: db where
  "example_db =
     \<lparr>users = [\<lparr>u_id = 1, telegram_id = 42, username = Some ''ann'', first_name = None,
                 last_name = None, stars_balance = 100, total_spent_stars = 0,
                 total_cases_opened = 0\<rparr>],
      nfts = [\<lparr>nft_id = 7, nft_name = ''gem'', nft_description = None, nft_rarity = ''rare'',
                nft_price = 90, nft_image_url = None, nft_is_active = True\<rparr>,
              \<lparr>nft_id = 8, nft_name = ''coin'', nft_description = None, nft_rarity = ''common'',
                nft_price = 100, nft_image_url = None, nft_is_active = True\<rparr>],
      cases = [\<lparr>case_id = 3, case_name = ''box'', price_stars = 150, case_is_active = True\<rparr>],
      case_nfts = [\<lparr>cn_id = 1, cn_case_id = 3, cn_nft_id = 7, cn_chance = 1,
                     cn_is_active = True\<rparr>],
      user_nfts = [\<lparr>un_id = 5, un_user_id = 1, un_nft_id = 7, is_sold = False,
                     sold_price = None, opened_from_case_id = Some 3\<rparr>,
                   \<lparr>un_id = 6, un_user_id = 1, un_nft_id = 8, is_sold = False,
                     sold_price = None, opened_from_case_id = None\<rparr>],
      opening_history = []\<rparr>"

section \<open>Properties of the parser\<close>

lemma split_on_nonempty: "split_on c s \<noteq> []"
  by (induction s) (auto split: list.splits)

lemma split_on_Cons:
  "split_on c (x # xs) =
     (if x = c then [] # split_on c xs
      else (x # hd (split_on c xs)) # tl (split_on c xs))"
  using split_on_nonempty[of c xs] by (cases "split_on c xs") auto

text \<open>The structural lemmas use the head/tail form of the second equation.\<close>

declare split_on.simps(2)[simp del] split_on_Cons[simp]



lemma split_on_hd_tl: "hd (split_on c s) # tl (split_on c s) = split_on c s"
  using split_on_nonempty[of c s] by simp

lemma split_on_append_sep: "split_on c (a @ c # b) = split_on c a @ split_on c b"
proof (induction a)
  case Nil
  show ?case by simp
next
  case (Cons x a)
  have ne: "split_on c a \<noteq> []" by (rule split_on_nonempty)
  show ?case using Cons ne by (cases "split_on c a") auto
qed

lemma split_on_absent: "c \<notin> set s \<Longrightarrow> split_on c s = [s]"
  by (induction s) auto

lemma split_on_length: "length (split_on c s) = Suc (count_list s c)"
proof (induction s)
  case Nil
  show ?case by simp
next
  case (Cons x s)
  have "split_on c s \<noteq> []" by (rule split_on_nonempty)
  then have "length (tl (split_on c s)) = count_list s c" using Cons by simp
  with Cons show ?case by simp
qed

lemma split_on_first:
  "c \<in> set s \<Longrightarrow>
   split_on c s = takeWhile (\<lambda>x. x \<noteq> c) s # split_on c (tl (dropWhile (\<lambda>x. x \<noteq> c) s))"
  by (induction s) auto

lemma count_list_0_iff': "count_list s c = 0 \<longleftrightarrow> c \<notin> set s"
  by (induction s) auto

lemma count_tl_dropWhile:
  "c \<in> set s \<Longrightarrow> count_list (tl (dropWhile (\<lambda>x. x \<noteq> c) s)) c = count_list s c - 1"
  by (induction s) auto

lemma unpack_pair_eq:
  "unpack_pair seg =
     (if count_list seg (CHR ''='') = 1 then spec_split_first seg else Inl ValueError)"
proof (cases "count_list seg (CHR ''='') = 1")
  case True
  then have mem: "CHR ''='' \<in> set seg" using count_list_0_iff'[of seg "CHR ''=''"] by auto
  have "count_list (tl (dropWhile (\<lambda>x. x \<noteq> CHR ''='') seg)) (CHR ''='') = 0"
    using count_tl_dropWhile[OF mem] True by simp
  then have "CHR ''='' \<notin> set (tl (dropWhile (\<lambda>x. x \<noteq> CHR ''='') seg))"
    by (simp add: count_list_0_iff')
  then show ?thesis
    using True mem
    by (simp add: unpack_pair_def spec_split_first_def seg_key_def seg_value_def split_on_first[OF mem] split_on_absent)
next
  case False
  then have "length (split_on (CHR ''='') seg) \<noteq> 2" by (simp add: split_on_length)
  then show ?thesis using False
    by (auto simp: unpack_pair_def split: list.splits)
qed

lemma last_hash_append: "last_hash (xs @ ys) h = last_hash ys (last_hash xs h)"
  by (induction xs arbitrary: h) auto

lemma last_hash_none: "\<forall>s\<in>set ss. seg_key s \<noteq> ''hash'' \<Longrightarrow> last_hash ss h = h"
  by (induction ss arbitrary: h) auto

lemma parse_pairs_eq:
  "parse_pairs segs acc h =
     (if \<forall>s\<in>set segs. count_list s (CHR ''='') = 1
      then Inr (acc @ filter (\<lambda>p. fst p \<noteq> ''hash'') (map (\<lambda>s. (seg_key s, seg_value s)) segs),
                last_hash segs h)
      else Inl ValueError)"
proof (induction segs arbitrary: acc h)
  case Nil
  show ?case by simp
next
  case (Cons s segs)
  show ?case
  proof (cases "count_list s (CHR ''='') = 1")
    case True
    then have "CHR ''='' \<in> set s" using count_list_0_iff'[of s "CHR ''=''"] by auto
    then have u: "unpack_pair s = Inr (seg_key s, seg_value s)"
      using True by (simp add: unpack_pair_eq spec_split_first_def)
    show ?thesis using True by (simp add: u Cons)
  next
    case False
    then show ?thesis by (simp add: unpack_pair_eq)
  qed
qed

lemma split_on_join:
  "segs \<noteq> [] \<Longrightarrow> split_on c (join [c] segs) = concat (map (split_on c) segs)"
proof (induction "[c]" segs rule: join.induct)
  case 1
  then show ?case by simp
next
  case (2 x)
  show ?case by simp
next
  case (3 x y ys)
  then show ?case by (simp add: split_on_append_sep)
qed

lemma split_on_count_other:
  "e \<noteq> c \<Longrightarrow> sum_list (map (\<lambda>s. count_list s e) (split_on c s)) = count_list s e"
proof (induction s)
  case Nil
  show ?case by simp
next
  case (Cons x s)
  have ne: "split_on c s \<noteq> []" by (rule split_on_nonempty)
  then obtain a as where sp: "split_on c s = a # as" by (cases "split_on c s") auto
  show ?case using Cons sp by auto
qed

lemma sum_list_all_one:
  "\<forall>x\<in>set xs. f x = (1::nat) \<Longrightarrow> sum_list (map f xs) = length xs"
  by (induction xs) auto

lemma split_on_bad_segment:
  assumes "count_list r (CHR ''='') \<noteq> Suc (count_list r (CHR ''&''))"
  shows "\<exists>s\<in>set (split_on (CHR ''&'') r). count_list s (CHR ''='') \<noteq> 1"
proof (rule ccontr)
  assume "\<not> ?thesis"
  then have all: "\<forall>s\<in>set (split_on (CHR ''&'') r). count_list s (CHR ''='') = 1" by blast
  have "sum_list (map (\<lambda>s. count_list s (CHR ''='')) (split_on (CHR ''&'') r))
          = length (split_on (CHR ''&'') r)"
    by (rule sum_list_all_one) (use all in blast)
  then have "count_list r (CHR ''='') = Suc (count_list r (CHR ''&''))"
    by (simp add: split_on_count_other split_on_length)
  with assms show False by simp
qed

lemma verify_try_bad_segment:
  assumes "\<exists>s\<in>set (split_on (CHR ''&'') d). count_list s (CHR ''='') \<noteq> 1"
  shows "verify_try sha hm tok d = Inl ValueError"
  using assms by (auto simp: verify_try_def parse_pairs_eq)

lemma verify_try_bad_raw:
  assumes "raws \<noteq> []" and "r \<in> set raws"
    and "count_list r (CHR ''='') \<noteq> Suc (count_list r (CHR ''&''))"
  shows "verify_try sha hm tok (join ''&'' raws) = Inl ValueError"
proof -
  obtain s where "s \<in> set (split_on (CHR ''&'') r)" and "count_list s (CHR ''='') \<noteq> 1"
    using split_on_bad_segment[OF assms(3)] by blast
  then have "\<exists>s\<in>set (split_on (CHR ''&'') (join ''&'' raws)). count_list s (CHR ''='') \<noteq> 1"
    using assms(1,2) by (auto simp: split_on_join)
  then show ?thesis by (rule verify_try_bad_segment)
qed

lemma count_render_pair:
  "plain (fst p) \<Longrightarrow> plain (snd p) \<Longrightarrow> count_list (render_pair p) (CHR ''='') = 1"
  by (simp add: render_pair_def plain_def count_list_0_iff')

lemma seg_key_render: "CHR ''='' \<notin> set k \<Longrightarrow> seg_key (k @ CHR ''='' # v) = k"
  by (induction k) (auto simp: seg_key_def)

lemma seg_value_render: "CHR ''='' \<notin> set k \<Longrightarrow> seg_value (k @ CHR ''='' # v) = v"
  by (induction k) (auto simp: seg_value_def)

lemma kv_render_pair:
  "plain (fst p) \<Longrightarrow> (seg_key (render_pair p), seg_value (render_pair p)) = p"
  using seg_key_render[of "fst p" "snd p"] seg_value_render[of "fst p" "snd p"]
  by (simp add: render_pair_def plain_def)

lemma concat_split_absent:
  "\<forall>r\<in>set raws. c \<notin> set r \<Longrightarrow> concat (map (split_on c) raws) = raws"
  by (induction raws) (auto simp: split_on_absent)

lemma kv_map_render:
  "\<forall>p\<in>set ps. plain_pair p \<Longrightarrow>
   filter (\<lambda>p. fst p \<noteq> ''hash'') (map (\<lambda>s. (seg_key s, seg_value s)) (map render_pair ps)) = ps"
  by (induction ps) (auto simp: kv_render_pair plain_pair_def)

lemma last_hash_render:
  "\<forall>p\<in>set ps. plain_pair p \<Longrightarrow> last_hash (map render_pair ps) h = h"
proof (rule last_hash_none, clarsimp)
  fix a b assume "\<forall>p\<in>set ps. plain_pair p" "(a, b) \<in> set ps" "seg_key (render_pair (a, b)) = ''hash''"
  then show False using kv_render_pair[of "(a, b)"] by (auto simp: plain_pair_def)
qed

lemma payload_verify:
  assumes h: "plain h" and ps: "\<forall>p\<in>set ps. plain_pair p"
  shows "verify_try sha hm (Some tok) (payload_at ps n h)
           = Inr (h \<noteq> [] \<and> hm (sha tok) (data_check_string ps) = h)"
proof -
  let ?raws = "map render_pair (take n ps) @ [''hash='' @ h] @ map render_pair (drop n ps)"
  have t: "\<forall>p\<in>set (take n ps). plain_pair p" and d: "\<forall>p\<in>set (drop n ps). plain_pair p"
    using ps by (auto dest: in_set_takeD in_set_dropD)
  have amp: "\<forall>r\<in>set ?raws. CHR ''&'' \<notin> set r"
    using t d h by (auto simp: render_pair_def plain_pair_def plain_def)
  have eq: "\<forall>r\<in>set ?raws. count_list r (CHR ''='') = 1"
    using t d h by (auto simp: count_render_pair plain_pair_def plain_def count_list_0_iff')
  have sp: "split_on (CHR ''&'') (payload_at ps n h) = ?raws"
    unfolding payload_at_def using split_on_join[of ?raws "CHR ''&''"] concat_split_absent[OF amp]
    by simp
  have hk: "seg_key (''hash='' @ h) = ''hash''" "seg_value (''hash='' @ h) = h"
    using seg_key_render[of "''hash''" h] seg_value_render[of "''hash''" h] by simp_all
  have kv: "filter (\<lambda>p. fst p \<noteq> ''hash'') (map (\<lambda>s. (seg_key s, seg_value s)) ?raws) = ps"
    using kv_map_render[OF t] kv_map_render[OF d] hk by simp
  have lh: "last_hash ?raws None = Some h"
    using last_hash_render[OF t] last_hash_render[OF d] hk by (simp add: last_hash_append)
  have "parse_pairs ?raws [] None = Inr (ps, Some h)"
    unfolding parse_pairs_eq using eq kv lh by simp
  then show ?thesis by (auto simp: verify_try_def sp)
qed

lemma count_list_update_absent:
  "i < length h \<Longrightarrow> x \<notin> set h \<Longrightarrow> count_list (h[i := c]) x = (if c = x then 1 else 0)"
proof (induction h arbitrary: i)
  case Nil
  then show ?case by simp
next
  case (Cons a h)
  then show ?case by (cases i) (auto simp: count_list_0_iff')
qed

lemma set_update_mem:
  "x \<in> set (h[i := c]) \<Longrightarrow> x = c \<or> x \<in> set h"
  using set_update_subset_insert[of h i c] by auto

lemma payload_raws_nonempty:
  "map render_pair (take n ps) @ [''hash='' @ h] @ map render_pair (drop n ps) \<noteq> []"
  by simp

lemma hexdigest_plain: "hexdigest_shape h \<Longrightarrow> plain h"
  by (auto simp: hexdigest_shape_def plain_def)

lemma hash_flip_rejected:
  assumes h: "plain h" and ps: "\<forall>p\<in>set ps. plain_pair p"
    and hm: "hm (sha tok) (data_check_string ps) = h"
    and i: "i < length h" and c: "c \<noteq> h ! i"
  shows "\<not> verify_telegram_init_data sha hm (Some tok) (payload_at ps n (h[i := c]))"
proof (cases "c = CHR ''&'' \<or> c = CHR ''=''")
  case True
  let ?r = "''hash='' @ h[i := c]"
  have "count_list ?r (CHR ''='') \<noteq> Suc (count_list ?r (CHR ''&''))"
    using True h i by (auto simp: plain_def count_list_update_absent)
  then have "verify_try sha hm (Some tok) (payload_at ps n (h[i := c])) = Inl ValueError"
    unfolding payload_at_def
    by (intro verify_try_bad_raw[where r = ?r]) auto
  then show ?thesis by (simp add: verify_telegram_init_data_def)
next
  case False
  then have "plain (h[i := c])" using h by (auto simp: plain_def dest: set_update_mem)
  moreover have "h[i := c] \<noteq> h" using i c by (metis nth_list_update_eq)
  ultimately show ?thesis
    using payload_verify[OF _ ps, of "h[i := c]" sha hm tok n] hm
    by (auto simp: verify_telegram_init_data_def)
qed

lemma value_flip_rejected:
  assumes h: "plain h" and ps: "\<forall>p\<in>set ps. plain_pair p"
    and hm: "hm (sha tok) (data_check_string ps) = h"
    and j: "j < length ps" and i: "i < length (snd (ps ! j))"
    and ps': "ps' = ps[j := (fst (ps ! j), (snd (ps ! j))[i := c])]"
    and nc: "hm (sha tok) (data_check_string ps') \<noteq> h"
  shows "\<not> verify_telegram_init_data sha hm (Some tok) (payload_at ps' n h)"
proof (cases "c = CHR ''&'' \<or> c = CHR ''=''")
  case True
  let ?k = "fst (ps ! j)" and ?v = "snd (ps ! j)"
  let ?r = "render_pair (?k, ?v[i := c])"
  have pj: "plain_pair (ps ! j)" using ps j by simp
  have "count_list ?r (CHR ''='') \<noteq> Suc (count_list ?r (CHR ''&''))"
    using True pj i
    by (auto simp: render_pair_def plain_pair_def plain_def count_list_update_absent count_list_0_iff')
  moreover have "(?k, ?v[i := c]) \<in> set ps'" using ps' j by (simp add: set_update_memI)
  then have "?r \<in> set (map render_pair (take n ps') @ [''hash='' @ h] @ map render_pair (drop n ps'))"
    using set_append[of "take n ps'" "drop n ps'"] by auto
  ultimately have "verify_try sha hm (Some tok) (payload_at ps' n h) = Inl ValueError"
    unfolding payload_at_def
    by (intro verify_try_bad_raw[where r = ?r]) auto
  then show ?thesis by (simp add: verify_telegram_init_data_def)
next
  case False
  have pj: "plain_pair (ps ! j)" using ps j by simp
  have "plain_pair (fst (ps ! j), (snd (ps ! j))[i := c])"
    using pj False by (auto simp: plain_pair_def plain_def dest: set_update_mem)
  then have "\<forall>p\<in>set ps'. plain_pair p"
    using ps ps' set_update_subset_insert[of ps j "(fst (ps ! j), (snd (ps ! j))[i := c])"] by auto
  then show ?thesis
    using payload_verify[OF h, of ps' sha hm tok n] nc
    by (auto simp: verify_telegram_init_data_def)
qed

text \<open>Concrete payloads are evaluated with the defining equations.\<close>

declare split_on_Cons[simp del] split_on.simps(2)[simp]

lemmas verify_eval = verify_telegram_init_data_def verify_try_def unpack_pair_def toy_hmac_hex_def
  toy_sha256_def data_check_string_def render_pair_def payload_at_def

text \<open>A changed value changes the check string: the sort is stable and the keys are the same.\<close>

lemma insort_key_rel:
  assumes "list_all2 R xs ys" and "R p q" and "\<And>a b. R a b \<Longrightarrow> f a = f b"
  shows "list_all2 R (insort_key f p xs) (insort_key f q ys)"
  using assms(1)
proof (induction rule: list_all2_induct)
  case Nil
  show ?case using assms(2) by simp
next
  case (Cons x xs y ys)
  have "f p = f q" "f x = f y" using assms(2,3) Cons.hyps(1) by auto
  then show ?case using Cons assms(2) by simp
qed

lemma sort_key_rel:
  assumes "list_all2 R xs ys" and "\<And>a b. R a b \<Longrightarrow> f a = f b"
  shows "list_all2 R (sort_key f xs) (sort_key f ys)"
  using assms(1)
proof (induction rule: list_all2_induct)
  case Nil
  show ?case by simp
next
  case (Cons x xs y ys)
  then show ?case using insort_key_rel[OF Cons.IH Cons.hyps(1) assms(2)] by simp
qed

lemma join_Cons: "join sep (x # xs) = (if xs = [] then x else x @ sep @ join sep xs)"
  by (cases xs) auto

lemma join_same_lengths_inj:
  assumes "list_all2 (\<lambda>a b. length a = length b) xs ys" and "join sep xs = join sep ys"
  shows "xs = ys"
  using assms
proof (induction rule: list_all2_induct)
  case Nil
  show ?case by simp
next
  case (Cons x xs y ys)
  have e: "(xs = []) = (ys = [])" using Cons.hyps(2) by (auto dest: list_all2_lengthD)
  show ?case
  proof (cases "xs = []")
    case True
    then show ?thesis using Cons.prems e by (simp add: join_Cons)
  next
    case False
    then have "x @ sep @ join sep xs = y @ sep @ join sep ys"
      using Cons.prems e by (simp add: join_Cons)
    then have "x = y \<and> join sep xs = join sep ys" using Cons.hyps(1) by simp
    then show ?thesis using Cons.IH by simp
  qed
qed

lemma render_same_key_inj:
  assumes "list_all2 (\<lambda>p q. fst p = fst q \<and> length (snd p) = length (snd q)) xs ys"
    and "map render_pair xs = map render_pair ys"
  shows "xs = ys"
  using assms
proof (induction rule: list_all2_induct)
  case Nil
  show ?case by simp
next
  case (Cons x xs y ys)
  then have "render_pair x = render_pair y" by simp
  then have "snd x = snd y" using Cons.hyps(1) by (simp add: render_pair_def)
  then have "x = y" using Cons.hyps(1) by (simp add: prod_eq_iff)
  then show ?case using Cons by simp
qed

lemma value_flip_changes_check_string:
  assumes j: "j < length ps" and i: "i < length (snd (ps ! j))" and c: "c \<noteq> snd (ps ! j) ! i"
  shows "data_check_string (ps[j := (fst (ps ! j), (snd (ps ! j))[i := c])]) \<noteq> data_check_string ps"
proof
  let ?new = "(fst (ps ! j), (snd (ps ! j))[i := c])"
  let ?ps' = "ps[j := ?new]"
  let ?R = "\<lambda>p q :: string \<times> string. fst p = fst q \<and> length (snd p) = length (snd q)"
  assume eq: "data_check_string ?ps' = data_check_string ps"
  have rel: "list_all2 ?R ?ps' ps"
  proof -
    have "?R (?ps' ! k) (ps ! k)" if "k < length ps" for k
      using that by (cases "k = j") simp_all
    then show ?thesis by (simp add: list_all2_conv_all_nth)
  qed
  have srel: "list_all2 ?R (sort_key fst ?ps') (sort_key fst ps)"
    using rel by (rule sort_key_rel) simp
  then have "list_all2 (\<lambda>a b. length a = length b)
               (map render_pair (sort_key fst ?ps')) (map render_pair (sort_key fst ps))"
    by (simp add: list_all2_map1 list_all2_map2 render_pair_def list_all2_mono)
  then have "map render_pair (sort_key fst ?ps') = map render_pair (sort_key fst ps)"
    using eq unfolding data_check_string_def by (rule join_same_lengths_inj)
  then have "sort_key fst ?ps' = sort_key fst ps" using srel by (rule render_same_key_inj[rotated])
  then have "mset (sort_key fst ?ps') = mset (sort_key fst ps)" by simp
  then have "mset ?ps' = mset ps" by simp
  then have "add_mset ?new (mset ps - {#ps ! j#}) = mset ps" using j by (simp add: mset_update)
  moreover have "mset ps = add_mset (ps ! j) (mset ps - {#ps ! j#})" using j by simp
  ultimately have "add_mset ?new (mset ps - {#ps ! j#}) = add_mset (ps ! j) (mset ps - {#ps ! j#})"
    by simp
  then have "?new = ps ! j" by simp
  then have "(snd (ps ! j))[i := c] = snd (ps ! j)" by (metis snd_conv)
  then have "(snd (ps ! j))[i := c] ! i = snd (ps ! j) ! i" by simp
  then show False using i c by simp
qed

section \<open>Claims about verify_telegram_init_data\<close>

lemma seg_split_id:
  "CHR ''='' \<in> set s \<Longrightarrow> s = seg_key s @ CHR ''='' # seg_value s"
  by (induction s) (auto simp: seg_key_def seg_value_def)

lemma seg_key_hash_prefix:
  assumes "CHR ''='' \<in> set s" and "seg_key s = ''hash''"
  shows "take 5 s = ''hash=''"
proof -
  have "s = ''hash'' @ CHR ''='' # seg_value s" using seg_split_id[OF assms(1)] assms(2) by simp
  then have "take 5 s = take 5 (''hash='' @ seg_value s)" by simp
  then show ?thesis by simp
qed

text \<open>
  Two facts that hold for every pair of hash functions, hence for SHA-256 and HMAC-SHA256
  themselves: a payload whose first segment does not have exactly one \<open>=\<close> is rejected
  whatever follows, and an empty \<open>hash\<close> pair followed by a \<open>hash\<close> pair with the HMAC of
  the empty check string is accepted.
\<close>

lemma verify_rejects_bad_first_segment:
  assumes "count_list seg (CHR ''='') \<noteq> 1" and "CHR ''&'' \<notin> set seg"
  shows "verify_try sha hm tok (seg @ CHR ''&'' # rest) = Inl ValueError
         \<and> \<not> verify_telegram_init_data sha hm tok (seg @ CHR ''&'' # rest)"
proof -
  have "split_on (CHR ''&'') (seg @ CHR ''&'' # rest)
          = split_on (CHR ''&'') seg @ split_on (CHR ''&'') rest"
    by (rule split_on_append_sep)
  then have "seg \<in> set (split_on (CHR ''&'') (seg @ CHR ''&'' # rest))"
    using assms(2) by (simp add: split_on_absent)
  then have "verify_try sha hm tok (seg @ CHR ''&'' # rest) = Inl ValueError"
    using assms(1) by (intro verify_try_bad_segment) blast
  then show ?thesis by (simp add: verify_telegram_init_data_def)
qed

lemma verify_accepts_overridden_empty_hash:
  assumes "hexdigest_shape (hm (sha tok) [])"
  shows "verify_telegram_init_data sha hm (Some tok) (''hash=&hash='' @ hm (sha tok) [])"
proof -
  let ?h = "hm (sha tok) []"
  have pl: "plain ?h" using assms by (rule hexdigest_plain)
  have ne: "?h \<noteq> []" using assms by (auto simp: hexdigest_shape_def)
  have "split_on (CHR ''&'') (''hash='' @ CHR ''&'' # (''hash='' @ ?h))
          = split_on (CHR ''&'') ''hash='' @ split_on (CHR ''&'') (''hash='' @ ?h)"
    by (rule split_on_append_sep)
  moreover have "split_on (CHR ''&'') (''hash='' @ ?h) = [''hash='' @ ?h]"
    using pl by (intro split_on_absent) (auto simp: plain_def)
  ultimately have sp: "split_on (CHR ''&'') (''hash=&hash='' @ ?h) = [''hash='', ''hash='' @ ?h]"
    by simp
  have u: "unpack_pair (''hash='' @ ?h) = Inr (''hash'', ?h)"
    using pl seg_key_render[of "''hash''" ?h] seg_value_render[of "''hash''" ?h]
    by (simp add: unpack_pair_eq spec_split_first_def plain_def count_list_0_iff')
  have u1: "unpack_pair ''hash='' = Inr (''hash'', [])" by (simp add: unpack_pair_def)
  have pp: "parse_pairs [''hash='', ''hash='' @ ?h] [] None = Inr ([], Some ?h)"
    using u u1 by simp
  have "verify_try sha hm (Some tok) (''hash=&hash='' @ ?h)
          = Inr (hm (sha tok) (data_check_string []) = ?h)"
    unfolding verify_try_def sp pp using ne by simp
  then show ?thesis
    by (simp add: verify_telegram_init_data_def data_check_string_def)
qed

text \<open>
  Claim C1, as amended. Let the keys and values of the pairs contain neither \<open>&\<close> nor
  \<open>=\<close>, no key be \<open>hash\<close>, and \<open>h\<close> be the HMAC, keyed by the digest of the bot token, of
  the check string of the pairs, of the shape of a hexdigest. Then \<open>verify\<close> accepts the
  payload with the \<open>hash\<close> pair at any position; it rejects the payload after any single
  character of the hash value has been replaced by a different one; and after any single
  character of a field value has been replaced by a different one the check string is a
  different string, and the payload is rejected provided the HMAC of the altered check
  string is not the original hash.
\<close>

theorem verify_signed_payload:
  assumes "\<forall>p\<in>set ps. plain_pair p"
    and "h = hm (sha tok) (data_check_string ps)"
    and "hexdigest_shape h"
  shows "verify_telegram_init_data sha hm (Some tok) (payload_at ps n h)
     \<and> (\<forall>i c. i < length h \<and> c \<noteq> h ! i \<longrightarrow>
           \<not> verify_telegram_init_data sha hm (Some tok) (payload_at ps n (h[i := c])))
     \<and> (\<forall>j i c. j < length ps \<and> i < length (snd (ps ! j)) \<and> c \<noteq> snd (ps ! j) ! i \<longrightarrow>
           data_check_string (ps[j := (fst (ps ! j), (snd (ps ! j))[i := c])])
             \<noteq> data_check_string ps
           \<and> (hm (sha tok)
                (data_check_string (ps[j := (fst (ps ! j), (snd (ps ! j))[i := c])])) \<noteq> h \<longrightarrow>
              \<not> verify_telegram_init_data sha hm (Some tok)
                  (payload_at (ps[j := (fst (ps ! j), (snd (ps ! j))[i := c])]) n h)))"
proof -
  have pl: "plain h" using assms(3) by (rule hexdigest_plain)
  have ne: "h \<noteq> []" using assms(3) by (auto simp: hexdigest_shape_def)
  have hm: "hm (sha tok) (data_check_string ps) = h" using assms(2) by simp
  have a: "verify_telegram_init_data sha hm (Some tok) (payload_at ps n h)"
    using payload_verify[OF pl assms(1), of sha hm tok n] ne hm
    by (simp add: verify_telegram_init_data_def)
  have b: "\<not> verify_telegram_init_data sha hm (Some tok) (payload_at ps n (h[i := c]))"
    if "i < length h" "c \<noteq> h ! i" for i c
    using hash_flip_rejected[where sha=sha and hm=hm and tok=tok, OF pl assms(1) hm that] .
  have c: "\<not> verify_telegram_init_data sha hm (Some tok)
               (payload_at (ps[j := (fst (ps ! j), (snd (ps ! j))[i := c])]) n h)"
    if "j < length ps" "i < length (snd (ps ! j))"
       "hm (sha tok)
          (data_check_string (ps[j := (fst (ps ! j), (snd (ps ! j))[i := c])])) \<noteq> h" for j i c
    using value_flip_rejected[where sha=sha and hm=hm and tok=tok, OF pl assms(1) hm that(1,2) refl that(3)] .
  have d: "data_check_string (ps[j := (fst (ps ! j), (snd (ps ! j))[i := c])])
             \<noteq> data_check_string ps"
    if "j < length ps" "i < length (snd (ps ! j))" "c \<noteq> snd (ps ! j) ! i" for j i c
    using that by (rule value_flip_changes_check_string)
  show ?thesis using a b c d by blast
qed

text \<open>
  A run of the three parts of C1 on the pairs \<open>user=7\<close> and \<open>auth_date=1\<close> with the stand-in
  hash functions.
\<close>

theorem verify_signed_payload_witness:
  "verify_telegram_init_data toy_sha256 toy_hmac_hex (Some ''T'')
     ''user=7&auth_date=1&hash=000000000000000000000000000000000000000000000000000000000000000e''
   \<and> \<not> verify_telegram_init_data toy_sha256 toy_hmac_hex (Some ''T'')
     ''user=7&auth_date=1&hash=100000000000000000000000000000000000000000000000000000000000000e''
   \<and> \<not> verify_telegram_init_data toy_sha256 toy_hmac_hex (Some ''T'')
     ''user=8&auth_date=1&hash=000000000000000000000000000000000000000000000000000000000000000e''"
proof -
  let ?ps = "[(''user'', ''7''), (''auth_date'', ''1'')]"
  let ?h = "''000000000000000000000000000000000000000000000000000000000000000e''"
  have h1: "\<forall>p\<in>set ?ps. plain_pair p" by (simp add: plain_pair_def plain_def)
  have h2: "?h = toy_hmac_hex (toy_sha256 ''T'') (data_check_string ?ps)"
    by (simp add: verify_eval)
  have h3: "hexdigest_shape ?h" by (simp add: hexdigest_shape_def)
  note T = verify_signed_payload[where sha=toy_sha256 and hm=toy_hmac_hex and tok="''T''" and n=2, OF h1 h2 h3]
  have a: "verify_telegram_init_data toy_sha256 toy_hmac_hex (Some ''T'') (payload_at ?ps 2 ?h)"
    using T by blast
  have "(0::nat) < length ?h \<and> CHR ''1'' \<noteq> ?h ! 0" by simp
  then have b: "\<not> verify_telegram_init_data toy_sha256 toy_hmac_hex (Some ''T'')
                   (payload_at ?ps 2 (?h[0 := CHR ''1'']))"
    using T by blast
  have "(0::nat) < length ?ps \<and> 0 < length (snd (?ps ! 0)) \<and> CHR ''8'' \<noteq> snd (?ps ! 0) ! 0"
    by simp
  moreover have "toy_hmac_hex (toy_sha256 ''T'')
             (data_check_string (?ps[0 := (fst (?ps ! 0), (snd (?ps ! 0))[0 := CHR ''8''])])) \<noteq> ?h"
    by (simp add: verify_eval)
  ultimately have c: "\<not> verify_telegram_init_data toy_sha256 toy_hmac_hex (Some ''T'')
                   (payload_at (?ps[0 := (fst (?ps ! 0), (snd (?ps ! 0))[0 := CHR ''8''])]) 2 ?h)"
    using T by blast
  show ?thesis using a b c by (simp add: payload_at_def render_pair_def)
qed

text \<open>
  Claim C1 as stated fails: the pair with key \<open>a\<close> and value \<open>b=c\<close>, signed with the HMAC of
  its check string \<open>a=b=c\<close>, is rejected, because the segment splits into three parts.
\<close>

theorem verify_value_with_equals_counterexample:
  "plain (fst (''a'', ''b=c'')) \<and> fst (''a'', ''b=c'') \<noteq> ''hash''
   \<and> \<not> verify_telegram_init_data toy_sha256 toy_hmac_hex (Some ''T'')
       (payload_at [(''a'', ''b=c'')] 1
          (toy_hmac_hex (toy_sha256 ''T'') (data_check_string [(''a'', ''b=c'')])))"
  by (simp add: verify_eval plain_def)

text \<open>
  Claim C2, as amended. A segment is parsed exactly when it contains one \<open>=\<close>, and then
  as the specification's split at the first \<open>=\<close>; every other segment, with no \<open>=\<close> or with
  more than one, raises \<open>ValueError\<close>. A payload with such a segment makes the \<open>try\<close> block
  raise, so that \<open>verify\<close> returns \<open>False\<close>.
\<close>

theorem unpack_pair_single_equals:
  "unpack_pair seg =
     (if count_list seg (CHR ''='') = 1 then spec_split_first seg else Inl ValueError)
   \<and> ((\<exists>s\<in>set (split_on (CHR ''&'') init_data). count_list s (CHR ''='') \<noteq> 1) \<longrightarrow>
        verify_try sha hm tok init_data = Inl ValueError
        \<and> \<not> verify_telegram_init_data sha hm tok init_data)"
  using unpack_pair_eq[of seg] verify_try_bad_segment[of init_data sha hm tok]
  by (auto simp: verify_telegram_init_data_def)

text \<open>
  C2 on the segments \<open>k=v\<close> and \<open>kv\<close> and on a payload with the segment \<open>kv\<close>.
\<close>

theorem unpack_pair_single_equals_witness:
  "unpack_pair ''k=v'' = Inr (''k'', ''v'')
   \<and> unpack_pair ''kv'' = Inl ValueError
   \<and> verify_try toy_sha256 toy_hmac_hex (Some ''T'') ''kv&hash=ab'' = Inl ValueError
   \<and> \<not> verify_telegram_init_data toy_sha256 toy_hmac_hex (Some ''T'') ''kv&hash=ab''"
proof -
  have e: "\<exists>s\<in>set (split_on (CHR ''&'') ''kv&hash=ab''). count_list s (CHR ''='') \<noteq> 1"
    by simp
  have a: "unpack_pair ''k=v'' = Inr (''k'', ''v'')"
    using unpack_pair_single_equals[of "''k=v''" "''kv&hash=ab''" toy_sha256 toy_hmac_hex "Some ''T''"]
    by (simp add: spec_split_first_def seg_key_def seg_value_def)
  have b: "unpack_pair ''kv'' = Inl ValueError"
    using unpack_pair_single_equals[of "''kv''" "''kv&hash=ab''" toy_sha256 toy_hmac_hex "Some ''T''"]
    by simp
  have c: "verify_try toy_sha256 toy_hmac_hex (Some ''T'') ''kv&hash=ab'' = Inl ValueError
           \<and> \<not> verify_telegram_init_data toy_sha256 toy_hmac_hex (Some ''T'') ''kv&hash=ab''"
    using unpack_pair_single_equals[of "''kv''" "''kv&hash=ab''" toy_sha256 toy_hmac_hex "Some ''T''"] e
    by blast
  show ?thesis using a b c by blast
qed

text \<open>
  Claim C2 as stated fails: the specification's split of \<open>user=x=y\<close> at the first \<open>=\<close> gives
  the key \<open>user\<close> and the value \<open>x=y\<close>, while the code raises \<open>ValueError\<close> on this segment and
  rejects the payload that carries it with the HMAC of \<open>user=x=y\<close>.
\<close>

theorem split_on_first_equals_counterexample:
  "spec_split_first ''user=x=y'' = Inr (''user'', ''x=y'')
   \<and> unpack_pair ''user=x=y'' = Inl ValueError
   \<and> verify_try toy_sha256 toy_hmac_hex (Some ''T'')
        (''user=x=y&hash='' @ toy_hmac_hex (toy_sha256 ''T'') ''user=x=y'') = Inl ValueError
   \<and> \<not> verify_telegram_init_data toy_sha256 toy_hmac_hex (Some ''T'')
        (''user=x=y&hash='' @ toy_hmac_hex (toy_sha256 ''T'') ''user=x=y'')"
  by (simp add: verify_eval spec_split_first_def seg_key_def seg_value_def)

text \<open>
  Claim C9, as amended. When the payload has a segment \<open>hash=\<close> and no later segment begins
  with \<open>hash=\<close>, \<open>verify\<close> returns \<open>False\<close> whatever the hash functions and the token are:
  the \<open>try\<close> block either returns \<open>False\<close> before the HMAC is computed or raises
  \<open>ValueError\<close> in the parser.
\<close>

theorem verify_empty_last_hash:
  assumes "split_on (CHR ''&'') init_data = pre @ [''hash=''] @ post"
    and "\<forall>s\<in>set post. take 5 s \<noteq> ''hash=''"
  shows "verify_try sha hm tok init_data \<in> {Inr False, Inl ValueError}
         \<and> \<not> verify_telegram_init_data sha hm tok init_data"
proof (cases "\<forall>s\<in>set (split_on (CHR ''&'') init_data). count_list s (CHR ''='') = 1")
  case False
  then have "verify_try sha hm tok init_data = Inl ValueError"
    by (intro verify_try_bad_segment) blast
  then show ?thesis by (simp add: verify_telegram_init_data_def)
next
  case True
  have "seg_key s \<noteq> ''hash''" if "s \<in> set post" for s
  proof
    assume k: "seg_key s = ''hash''"
    have "count_list s (CHR ''='') = 1" using True that assms(1) by simp
    then have "CHR ''='' \<in> set s" using count_list_0_iff'[of s "CHR ''=''"] by auto
    then have "take 5 s = ''hash=''" using k by (rule seg_key_hash_prefix)
    with assms(2) that show False by blast
  qed
  then have "last_hash post (Some []) = Some []" by (intro last_hash_none) blast
  then have "last_hash (split_on (CHR ''&'') init_data) None = Some []"
    by (simp add: assms(1) last_hash_append seg_key_def seg_value_def)
  then have "verify_try sha hm tok init_data = Inr False"
    using True by (simp add: verify_try_def parse_pairs_eq)
  then show ?thesis by (simp add: verify_telegram_init_data_def)
qed

text \<open>
  C9 on the payload \<open>user=7&hash=\<close>.
\<close>

theorem verify_empty_last_hash_witness:
  "split_on (CHR ''&'') ''user=7&hash='' = [''user=7''] @ [''hash=''] @ []
   \<and> \<not> verify_telegram_init_data toy_sha256 toy_hmac_hex (Some ''T'') ''user=7&hash=''"
proof -
  have h1: "split_on (CHR ''&'') ''user=7&hash='' = [''user=7''] @ [''hash=''] @ []" by simp
  have h2: "\<forall>s\<in>set ([]::string list). take 5 s \<noteq> ''hash=''" by simp
  from verify_empty_last_hash[OF h1 h2, of toy_sha256 toy_hmac_hex "Some ''T''"]
  have "\<not> verify_telegram_init_data toy_sha256 toy_hmac_hex (Some ''T'') ''user=7&hash=''"
    by blast
  with h1 show ?thesis by blast
qed

text \<open>
  Claim C9 as stated fails: the payload below contains the segment \<open>hash=\<close>, followed by
  a second \<open>hash\<close> pair that carries the HMAC of the empty check string; the second pair
  overwrites the first and \<open>verify\<close> returns \<open>True\<close>.
\<close>

theorem verify_empty_hash_overridden_counterexample:
  "''hash='' \<in> set (split_on (CHR ''&'') (''hash=&hash='' @ toy_hmac_hex (toy_sha256 ''T'') []))
   \<and> verify_telegram_init_data toy_sha256 toy_hmac_hex (Some ''T'')
        (''hash=&hash='' @ toy_hmac_hex (toy_sha256 ''T'') [])"
  by (simp add: verify_eval)

section \<open>Properties of the weighted draw\<close>








text \<open>
  Claim C7. On an empty list \<open>open_case\<close> returns \<open>None\<close>, its signal for the empty pool,
  for every value of the random source, and never an item.
\<close>

theorem open_case_empty: "open_case u [] = Inr None"
  by (simp add: open_case_def)




section \<open>Properties of the sale\<close>

lemma find_SomeD: "find P xs = Some x \<Longrightarrow> x \<in> set xs \<and> P x"
  by (induction xs) (auto split: if_splits)

lemma find_None_iff_set: "find P xs = None \<longleftrightarrow> (\<forall>x\<in>set xs. \<not> P x)"
  by (induction xs) auto

lemma bit_length_numeral:
  "bit_length (numeral (Num.Bit0 n)) = Suc (bit_length (numeral n))"
  "bit_length (numeral (Num.Bit1 n)) = Suc (bit_length (numeral n))"
  "bit_length (Suc 0) = Suc 0" "bit_length 1 = 1" "bit_length 0 = 0"
  by (subst bit_length.simps, simp)+

lemmas sell_price_eval =
  sell_price_of_def SELL_PERCENT_numerator_def round53_def bit_length_numeral Let_def

lemma sell_price_of_nonneg:
  assumes "sell_price_of p = Inr v" and "0 \<le> p"
  shows "0 \<le> v"
proof -
  obtain k :: nat where "v = sgn p * int k"
    using assms(1) by (auto simp: sell_price_of_def Let_def split: if_splits)
  moreover have "0 \<le> sgn p" using assms(2) by (simp add: sgn_if)
  ultimately show ?thesis by simp
qed

lemma sell_nft_not_found:
  assumes "\<forall>e\<in>set (user_nfts d). un_id e = i \<longrightarrow> un_user_id e \<noteq> uid \<or> is_sold e"
  shows "sell_nft d i uid = (Inr None, d)"
proof -
  have "find (\<lambda>e. un_id e = i \<and> un_user_id e = uid \<and> \<not> is_sold e) (user_nfts d) = None"
    using assms by (auto simp: find_None_iff_set)
  then show ?thesis by (simp add: sell_nft_def)
qed

lemma sell_nft_cases:
  "sell_nft d i uid = (Inr None, d) \<or> (\<exists>err. sell_nft d i uid = (Inl err, d))
   \<or> (\<exists>e n u p.
         find (\<lambda>e. un_id e = i \<and> un_user_id e = uid \<and> \<not> is_sold e) (user_nfts d) = Some e
       \<and> find (\<lambda>n. nft_id n = un_nft_id e) (nfts d) = Some n
       \<and> sell_price_of (nft_price n) = Inr p
       \<and> find (\<lambda>u. u_id u = uid) (users d) = Some u
       \<and> sell_nft d i uid =
           (Inr (Some p),
            d\<lparr>user_nfts := map (\<lambda>x. if un_id x = un_id e
                                     then x\<lparr>is_sold := True, sold_price := Some p\<rparr> else x)
                               (user_nfts d),
              users := map (\<lambda>x. if u_id x = u_id u
                                 then x\<lparr>stars_balance := stars_balance u + p\<rparr> else x)
                           (users d)\<rparr>))"
  by (auto simp: sell_nft_def split: option.splits sum.splits)

lemma sell_nft_failure_unchanged:
  assumes "sell_nft d i uid = (r, d')" and "\<forall>p. r \<noteq> Inr (Some p)"
  shows "d' = d"
  using sell_nft_cases[of d i uid] assms by auto

lemma sell_nft_twice:
  assumes "sell_nft d i uid = (Inr (Some p), d')"
  shows "sell_nft d' i uid' = (Inr None, d')"
proof -
  from sell_nft_cases[of d i uid] assms obtain e u where
    e: "find (\<lambda>e. un_id e = i \<and> un_user_id e = uid \<and> \<not> is_sold e) (user_nfts d) = Some e"
    and d': "user_nfts d' = map (\<lambda>x. if un_id x = un_id e
                                     then x\<lparr>is_sold := True, sold_price := Some p\<rparr> else x)
                               (user_nfts d)"
    by auto
  have "un_id e = i" using find_SomeD[OF e] by simp
  then have "\<forall>x\<in>set (user_nfts d'). un_id x = i \<longrightarrow> un_user_id x \<noteq> uid' \<or> is_sold x"
    unfolding d' by auto
  then show ?thesis by (rule sell_nft_not_found)
qed

text \<open>
  A successful sale returns the amount that it records as the sold price and adds to the
  balance of the seller; the amount is the sale price of an item of the catalogue.
\<close>

lemma sell_nft_credits_recorded_amount:
  assumes "sell_nft d i uid = (Inr (Some p), d')"
  shows "(\<exists>n\<in>set (nfts d). sell_price_of (nft_price n) = Inr p)
       \<and> (\<forall>x\<in>set (user_nfts d'). un_id x = i \<longrightarrow> is_sold x \<and> sold_price x = Some p)
       \<and> (\<exists>u\<in>set (users d). u_id u = uid
             \<and> (\<forall>x\<in>set (users d'). u_id x = uid \<longrightarrow> stars_balance x = stars_balance u + p))"
proof -
  from sell_nft_cases[of d i uid] assms obtain e n u where
    e: "find (\<lambda>e. un_id e = i \<and> un_user_id e = uid \<and> \<not> is_sold e) (user_nfts d) = Some e"
    and n: "find (\<lambda>n. nft_id n = un_nft_id e) (nfts d) = Some n"
    and p: "sell_price_of (nft_price n) = Inr p"
    and u: "find (\<lambda>u. u_id u = uid) (users d) = Some u"
    and d': "d' = d\<lparr>user_nfts := map (\<lambda>x. if un_id x = un_id e
                                     then x\<lparr>is_sold := True, sold_price := Some p\<rparr> else x)
                               (user_nfts d),
              users := map (\<lambda>x. if u_id x = u_id u
                                 then x\<lparr>stars_balance := stars_balance u + p\<rparr> else x)
                           (users d)\<rparr>"
    by auto
  have ei: "un_id e = i" using find_SomeD[OF e] by simp
  have ui: "u \<in> set (users d)" "u_id u = uid" using find_SomeD[OF u] by simp_all
  have a: "\<exists>n\<in>set (nfts d). sell_price_of (nft_price n) = Inr p"
    using find_SomeD[OF n] p by blast
  have b: "\<forall>x\<in>set (user_nfts d'). un_id x = i \<longrightarrow> is_sold x \<and> sold_price x = Some p"
    unfolding d' using ei by auto
  have c: "\<forall>x\<in>set (users d'). u_id x = uid \<longrightarrow> stars_balance x = stars_balance u + p"
    unfolding d' using ui(2) by auto
  show ?thesis using a b c ui by blast
qed

section \<open>Invariants of the runs\<close>

lemma get_or_create_user_users:
  "users (snd (get_or_create_user d tid uname fname lname)) = users d
   \<or> (\<exists>new. users (snd (get_or_create_user d tid uname fname lname)) = users d @ [new]
            \<and> telegram_id new = tid \<and> stars_balance new = 1000
            \<and> total_spent_stars new = 0 \<and> total_cases_opened new = 0)"
  by (auto simp: get_or_create_user_def Let_def split: option.splits)

lemma get_or_create_user_frame:
  "nfts (snd (get_or_create_user d tid uname fname lname)) = nfts d
   \<and> cases (snd (get_or_create_user d tid uname fname lname)) = cases d
   \<and> user_nfts (snd (get_or_create_user d tid uname fname lname)) = user_nfts d"
  by (auto simp: get_or_create_user_def Let_def split: option.splits)

lemma add_nft_to_inventory_frame:
  "users (snd (add_nft_to_inventory d uid nid cid)) = users d
   \<and> nfts (snd (add_nft_to_inventory d uid nid cid)) = nfts d
   \<and> cases (snd (add_nft_to_inventory d uid nid cid)) = cases d
   \<and> (\<exists>e. user_nfts (snd (add_nft_to_inventory d uid nid cid)) = user_nfts d @ [e])"
  by (simp add: add_nft_to_inventory_def Let_def)

lemma spec_openCase_cases:
  "snd (spec_openCase draw d uid cid) = d
   \<or> (\<exists>u c.
         find (\<lambda>u. u_id u = uid) (users d) = Some u
       \<and> find (\<lambda>c. case_id c = cid) (cases d) = Some c
       \<and> \<not> stars_balance u < price_stars c
       \<and> nfts (snd (spec_openCase draw d uid cid)) = nfts d
       \<and> cases (snd (spec_openCase draw d uid cid)) = cases d
       \<and> users (snd (spec_openCase draw d uid cid)) =
            map (\<lambda>x. if u_id x = u_id u
                      then x\<lparr>stars_balance := stars_balance u - price_stars c,
                             total_spent_stars := total_spent_stars u + price_stars c,
                             total_cases_opened := total_cases_opened u + 1\<rparr>
                      else x) (users d)
       \<and> (\<exists>e. user_nfts (snd (spec_openCase draw d uid cid)) = user_nfts d @ [e]))"
proof (cases "find (\<lambda>u. u_id u = uid) (users d)")
  case None
  then show ?thesis by (simp add: spec_openCase_def)
next
  case u: (Some u)
  show ?thesis
  proof (cases "find (\<lambda>c. case_id c = cid) (cases d)")
    case None
    then show ?thesis using u by (simp add: spec_openCase_def)
  next
    case c: (Some c)
    show ?thesis
    proof (cases "case_is_active c \<and> get_case_nfts d cid \<noteq> []
                  \<and> \<not> stars_balance u < price_stars c")
      case False
      then show ?thesis using u c by (auto simp: spec_openCase_def)
    next
      case ok: True
      show ?thesis
      proof (cases "open_case draw (get_case_nfts d cid)")
        case (Inl err)
        then show ?thesis using u c ok by (simp add: spec_openCase_def)
      next
        case (Inr r)
        show ?thesis
        proof (cases r)
          case None
          then show ?thesis using u c ok Inr by (simp add: spec_openCase_def)
        next
          case (Some item)
          have "\<not> stars_balance u < price_stars c" using ok by simp
          then show ?thesis
            using u c ok Inr Some
            by (intro disjI2 exI[of _ u] exI[of _ c])
               (simp add: spec_openCase_def)
        qed
      qed
    qed
  qed
qed

lemma sell_nft_snd_cases:
  "snd (sell_nft d i uid) = d
   \<or> (\<exists>e n u p.
         find (\<lambda>e. un_id e = i \<and> un_user_id e = uid \<and> \<not> is_sold e) (user_nfts d) = Some e
       \<and> find (\<lambda>n. nft_id n = un_nft_id e) (nfts d) = Some n
       \<and> sell_price_of (nft_price n) = Inr p
       \<and> find (\<lambda>u. u_id u = uid) (users d) = Some u
       \<and> nfts (snd (sell_nft d i uid)) = nfts d
       \<and> cases (snd (sell_nft d i uid)) = cases d
       \<and> user_nfts (snd (sell_nft d i uid)) =
            map (\<lambda>x. if un_id x = un_id e
                      then x\<lparr>is_sold := True, sold_price := Some p\<rparr> else x) (user_nfts d)
       \<and> users (snd (sell_nft d i uid)) =
            map (\<lambda>x. if u_id x = u_id u
                      then x\<lparr>stars_balance := stars_balance u + p\<rparr> else x) (users d))"
proof (cases "find (\<lambda>e. un_id e = i \<and> un_user_id e = uid \<and> \<not> is_sold e) (user_nfts d)")
  case None
  then show ?thesis by (simp add: sell_nft_def)
next
  case e: (Some e)
  show ?thesis
  proof (cases "find (\<lambda>n. nft_id n = un_nft_id e) (nfts d)")
    case None
    then show ?thesis using e by (simp add: sell_nft_def)
  next
    case n: (Some n)
    show ?thesis
    proof (cases "sell_price_of (nft_price n)")
      case (Inl err)
      then show ?thesis using e n by (simp add: sell_nft_def)
    next
      case p: (Inr p)
      show ?thesis
      proof (cases "find (\<lambda>u. u_id u = uid) (users d)")
        case None
        then show ?thesis using e n p by (simp add: sell_nft_def)
      next
        case (Some u)
        then show ?thesis
          using e n p
          by (intro disjI2 exI[of _ e] exI[of _ n] exI[of _ u] exI[of _ p])
             (simp add: sell_nft_def)
      qed
    qed
  qed
qed

lemma step_prices: "step d d' \<Longrightarrow> nfts d' = nfts d \<and> cases d' = cases d"
proof (induction rule: step.induct)
  case (step_create d tid uname fname lname)
  show ?case using get_or_create_user_frame[of d tid uname fname lname] by simp
next
  case (step_add d uid nid cid)
  show ?case using add_nft_to_inventory_frame[of d uid nid cid] by simp
next
  case (step_sell d i uid)
  from sell_nft_snd_cases[of d i uid] show ?case
    by (elim disjE exE conjE) simp_all
next
  case (step_open d draw uid cid)
  from spec_openCase_cases[of draw d uid cid] show ?case
    by (elim disjE exE conjE) simp_all
qed

lemma step_balances:
  assumes "step d d'" and "balances_nonneg d" and "prices_nonneg d"
  shows "balances_nonneg d'"
  using assms
proof (induction rule: step.induct)
  case (step_create d tid uname fname lname)
  show ?case
    using get_or_create_user_users[of d tid uname fname lname] step_create.prems(1)
    by (auto simp: balances_nonneg_def)
next
  case (step_add d uid nid cid)
  show ?case
    using add_nft_to_inventory_frame[of d uid nid cid] step_add.prems(1)
    by (simp add: balances_nonneg_def)
next
  case (step_sell d i uid)
  from sell_nft_snd_cases[of d i uid] show ?case
  proof (elim disjE exE conjE)
    assume "snd (sell_nft d i uid) = d"
    then show ?thesis using step_sell.prems(1) by simp
  next
    fix e :: user_nft and n :: nft and u :: user and p :: int
    assume n: "find (\<lambda>n. nft_id n = un_nft_id e) (nfts d) = Some n"
      and p: "sell_price_of (nft_price n) = Inr p"
      and u: "find (\<lambda>u. u_id u = uid) (users d) = Some u"
      and us: "users (snd (sell_nft d i uid)) =
            map (\<lambda>x. if u_id x = u_id u
                      then x\<lparr>stars_balance := stars_balance u + p\<rparr> else x) (users d)"
    have "0 \<le> nft_price n" using find_SomeD[OF n] step_sell.prems(2) by (simp add: prices_nonneg_def)
    then have "0 \<le> p" by (rule sell_price_of_nonneg[OF p])
    moreover have "0 \<le> stars_balance u"
      using find_SomeD[OF u] step_sell.prems(1) by (simp add: balances_nonneg_def)
    ultimately show ?thesis using step_sell.prems(1) unfolding balances_nonneg_def us by auto
  qed
next
  case (step_open d draw uid cid)
  from spec_openCase_cases[of draw d uid cid] show ?case
  proof (elim disjE exE conjE)
    assume "snd (spec_openCase draw d uid cid) = d"
    then show ?thesis using step_open.prems(1) by simp
  next
    fix u :: user and c :: case_row and e :: user_nft
    assume ge: "\<not> stars_balance u < price_stars c"
      and us: "users (snd (spec_openCase draw d uid cid)) =
            map (\<lambda>x. if u_id x = u_id u
                      then x\<lparr>stars_balance := stars_balance u - price_stars c,
                             total_spent_stars := total_spent_stars u + price_stars c,
                             total_cases_opened := total_cases_opened u + 1\<rparr>
                      else x) (users d)"
    show ?thesis using step_open.prems(1) ge unfolding balances_nonneg_def us by auto
  qed
qed

lemma steps_invariant:
  assumes "step\<^sup>*\<^sup>* d0 d" and "balances_nonneg d0" and "prices_nonneg d0"
  shows "balances_nonneg d \<and> prices_nonneg d"
  using assms
proof (induction rule: rtranclp_induct)
  case base
  then show ?case by simp
next
  case (step y z)
  then have inv: "balances_nonneg y" "prices_nonneg y" by simp_all
  have "prices_nonneg z" using step_prices[OF step.hyps(2)] inv(2) by (simp add: prices_nonneg_def)
  moreover have "balances_nonneg z" using step_balances[OF step.hyps(2) inv] .
  ultimately show ?case by simp
qed

lemma step_sold:
  assumes "step d d'"
  shows "length (user_nfts d) \<le> length (user_nfts d')
       \<and> (\<forall>k<length (user_nfts d).
             un_id (user_nfts d' ! k) = un_id (user_nfts d ! k)
           \<and> (is_sold (user_nfts d ! k) \<longrightarrow> is_sold (user_nfts d' ! k)))"
  using assms
proof (induction rule: step.induct)
  case (step_create d tid uname fname lname)
  show ?case using get_or_create_user_frame[of d tid uname fname lname] by simp
next
  case (step_add d uid nid cid)
  show ?case using add_nft_to_inventory_frame[of d uid nid cid] by (auto simp: nth_append)
next
  case (step_sell d i uid)
  have "\<exists>f. user_nfts (snd (sell_nft d i uid)) = map f (user_nfts d)
          \<and> (\<forall>x. un_id (f x) = un_id x \<and> (is_sold x \<longrightarrow> is_sold (f x)))"
    using sell_nft_snd_cases[of d i uid]
  proof (elim disjE exE conjE)
    assume "snd (sell_nft d i uid) = d"
    then have "user_nfts (snd (sell_nft d i uid)) = map (\<lambda>x. x) (user_nfts d)" by simp
    then show ?thesis by blast
  next
    fix e :: user_nft and n :: nft and u :: user and p :: int
    let ?f = "\<lambda>x. if un_id x = un_id e
                      then x\<lparr>is_sold := True, sold_price := Some p\<rparr> else x"
    assume "user_nfts (snd (sell_nft d i uid)) = map ?f (user_nfts d)"
    moreover have "\<forall>x. un_id (?f x) = un_id x \<and> (is_sold x \<longrightarrow> is_sold (?f x))" by simp
    ultimately show ?thesis by blast
  qed
  then show ?case by auto
next
  case (step_open d draw uid cid)
  have "user_nfts (snd (spec_openCase draw d uid cid)) = user_nfts d
        \<or> (\<exists>e. user_nfts (snd (spec_openCase draw d uid cid)) = user_nfts d @ [e])"
    using spec_openCase_cases[of draw d uid cid] by (elim disjE exE conjE) simp_all
  then show ?case by (auto simp: nth_append)
qed

lemma steps_sold:
  assumes "step\<^sup>*\<^sup>* d d'"
  shows "length (user_nfts d) \<le> length (user_nfts d')
       \<and> (\<forall>k<length (user_nfts d).
             un_id (user_nfts d' ! k) = un_id (user_nfts d ! k)
           \<and> (is_sold (user_nfts d ! k) \<longrightarrow> is_sold (user_nfts d' ! k)))"
  using assms
proof (induction rule: rtranclp_induct)
  case base
  show ?case by simp
next
  case (step y z)
  from step_sold[OF step.hyps(2)] step.IH show ?case by fastforce
qed

section \<open>Claims about the ledger and the users\<close>

lemma sell_example_5:
  "sell_nft example_db 5 1 =
     (Inr (Some 62),
      example_db\<lparr>user_nfts :=
                   [\<lparr>un_id = 5, un_user_id = 1, un_nft_id = 7, is_sold = True,
                      sold_price = Some 62, opened_from_case_id = Some 3\<rparr>,
                    \<lparr>un_id = 6, un_user_id = 1, un_nft_id = 8, is_sold = False,
                      sold_price = None, opened_from_case_id = None\<rparr>],
                 users :=
                   [\<lparr>u_id = 1, telegram_id = 42, username = Some ''ann'', first_name = None,
                      last_name = None, stars_balance = 162, total_spent_stars = 0,
                      total_cases_opened = 0\<rparr>]\<rparr>)"
  by (simp add: sell_nft_def example_db_def sell_price_eval)

lemma sell_example_6: "fst (sell_nft example_db 6 1) = Inr (Some 70)"
  by (simp add: sell_nft_def example_db_def sell_price_eval)

lemma example_db_invariants: "balances_nonneg example_db \<and> prices_nonneg example_db"
  by (simp add: balances_nonneg_def prices_nonneg_def example_db_def)

text \<open>
  Claim C3 at the price 90. The product \<open>90 * 0.7\<close> of doubles is
  \<open>62.99999999999999\<close>, which \<open>int\<close> truncates: the sale returns 62, credits the balance of
  100 to 162 and records 62 as the sold price, while the floor of 90 times 0.7 is 63.
  At the price 100 the product is exactly 70.0 and the sale returns 70.
\<close>

theorem sell_nft_price_90_credits_62:
  "fst (sell_nft example_db 5 1) = Inr (Some 62)
   \<and> map stars_balance (users (snd (sell_nft example_db 5 1))) = [100 + 62]
   \<and> map sold_price (user_nfts (snd (sell_nft example_db 5 1))) = [Some 62, None]
   \<and> \<lfloor>90 * (0.7 :: real)\<rfloor> = 63
   \<and> fst (sell_nft example_db 6 1) = Inr (Some 70)"
proof -
  have "\<lfloor>90 * (0.7 :: real)\<rfloor> = 63" by simp
  then show ?thesis by (simp add: sell_example_5 sell_example_6)
qed

text \<open>
  Claim C4. When every inventory entry with the given id belongs to another user or is
  already sold (in particular when there is none), \<open>sell_nft\<close> returns \<open>None\<close>, its signal
  for "not found", and leaves the tables unchanged. After a successful sale a second call
  on the same entry, by any user, returns \<open>None\<close> and changes nothing, so the balance is
  not credited again. Along every run of the operations an entry that is sold keeps its
  place and its id and stays sold.
\<close>

theorem sell_nft_not_found_terminal:
  "((\<forall>e\<in>set (user_nfts d). un_id e = i \<longrightarrow> un_user_id e \<noteq> uid \<or> is_sold e)
      \<longrightarrow> sell_nft d i uid = (Inr None, d))
   \<and> (sell_nft d i uid = (Inr (Some p), d') \<longrightarrow> sell_nft d' i uid' = (Inr None, d'))
   \<and> (step\<^sup>*\<^sup>* d d'' \<longrightarrow>
        (\<forall>k<length (user_nfts d). is_sold (user_nfts d ! k) \<longrightarrow>
           k < length (user_nfts d'')
           \<and> un_id (user_nfts d'' ! k) = un_id (user_nfts d ! k)
           \<and> is_sold (user_nfts d'' ! k)))"
proof (intro conjI impI)
  assume "\<forall>e\<in>set (user_nfts d). un_id e = i \<longrightarrow> un_user_id e \<noteq> uid \<or> is_sold e"
  then show "sell_nft d i uid = (Inr None, d)" by (rule sell_nft_not_found)
next
  assume "sell_nft d i uid = (Inr (Some p), d')"
  then show "sell_nft d' i uid' = (Inr None, d')" by (rule sell_nft_twice)
next
  assume "step\<^sup>*\<^sup>* d d''"
  from steps_sold[OF this]
  show "\<forall>k<length (user_nfts d). is_sold (user_nfts d ! k) \<longrightarrow>
           k < length (user_nfts d'')
           \<and> un_id (user_nfts d'' ! k) = un_id (user_nfts d ! k)
           \<and> is_sold (user_nfts d'' ! k)"
    by (meson less_le_trans)
qed

text \<open>
  C4 on the example tables: a sale by a user who is not the owner, a second sale of a sold
  entry, and a sold entry after a later insertion.
\<close>

theorem sell_nft_not_found_terminal_witness:
  "sell_nft example_db 5 2 = (Inr None, example_db)
   \<and> sell_nft (snd (sell_nft example_db 5 1)) 5 1 = (Inr None, snd (sell_nft example_db 5 1))
   \<and> is_sold (user_nfts (snd (add_nft_to_inventory (snd (sell_nft example_db 5 1)) 1 8 3)) ! 0)"
proof -
  let ?d' = "snd (sell_nft example_db 5 1)"
  let ?d'' = "snd (add_nft_to_inventory ?d' 1 8 3)"
  note T = sell_nft_not_found_terminal[of example_db 5 2 62 ?d' 1 example_db]
  note U = sell_nft_not_found_terminal[of example_db 5 1 62 ?d' 1 example_db]
  note V = sell_nft_not_found_terminal[of ?d' 5 1 62 ?d' 1 ?d'']
  have h1: "\<forall>e\<in>set (user_nfts example_db). un_id e = 5 \<longrightarrow> un_user_id e \<noteq> 2 \<or> is_sold e"
    by (simp add: example_db_def)
  have a: "sell_nft example_db 5 2 = (Inr None, example_db)" using T h1 by blast
  have h2: "sell_nft example_db 5 1 = (Inr (Some 62), ?d')" by (simp add: sell_example_5)
  have b: "sell_nft ?d' 5 1 = (Inr None, ?d')" using U h2 by blast
  have h3: "step\<^sup>*\<^sup>* ?d' ?d''" by (intro r_into_rtranclp step_add)
  have h4: "0 < length (user_nfts ?d') \<and> is_sold (user_nfts ?d' ! 0)"
    by (simp add: sell_example_5)
  have c: "is_sold (user_nfts ?d'' ! 0)" using V h3 h4 by blast
  show ?thesis using a b c by blast
qed

text \<open>
  Claim C5, on the operation modelled from the specification. When the user and the case
  are found, the case is active and its pool is not empty, and the balance is below the
  price of the case, \<open>openCase\<close> fails with \<open>InsufficientFunds\<close> and returns the tables
  unchanged, for every draw.
\<close>

theorem spec_openCase_insufficient_funds:
  assumes "find (\<lambda>u. u_id u = uid) (users d) = Some u"
    and "find (\<lambda>c. case_id c = cid) (cases d) = Some c"
    and "case_is_active c"
    and "get_case_nfts d cid \<noteq> []"
    and "stars_balance u < price_stars c"
  shows "spec_openCase draw d uid cid = (Inl InsufficientFunds, d)"
  using assms by (simp add: spec_openCase_def)

text \<open>
  C5 on the example tables: balance 100, case price 150.
\<close>

theorem spec_openCase_insufficient_funds_witness:
  "spec_openCase (1/2) example_db 1 3 = (Inl InsufficientFunds, example_db)
   \<and> map stars_balance (users example_db) = [100]
   \<and> map price_stars (cases example_db) = [150]"
proof -
  have h1: "find (\<lambda>u. u_id u = 1) (users example_db) = Some (hd (users example_db))"
    by (simp add: example_db_def)
  have h2: "find (\<lambda>c. case_id c = 3) (cases example_db) = Some (hd (cases example_db))"
    by (simp add: example_db_def)
  have h3: "case_is_active (hd (cases example_db))" by (simp add: example_db_def)
  have h4: "get_case_nfts example_db 3 \<noteq> []"
    by (simp add: get_case_nfts_def example_db_def)
  have h5: "stars_balance (hd (users example_db)) < price_stars (hd (cases example_db))"
    by (simp add: example_db_def)
  from spec_openCase_insufficient_funds[OF h1 h2 h3 h4 h5, of "1/2"]
  show ?thesis by (simp add: example_db_def)
qed

text \<open>
  Claim C6. From tables with non-negative balances and non-negative item and case prices,
  every run of user creation, inventory insertion, sale and \<open>openCase\<close> (the last modelled
  from the specification) ends in tables with non-negative balances. The two operations
  outside the ledger write no balance or counter of an existing user:
  \<open>add_nft_to_inventory\<close> leaves the user table alone, and \<open>get_or_create_user\<close> at most
  appends one new user, with balance 1000 and nothing spent.
\<close>

theorem balances_nonneg_invariant:
  "(step\<^sup>*\<^sup>* d0 d \<and> balances_nonneg d0 \<and> prices_nonneg d0 \<longrightarrow> balances_nonneg d)
   \<and> users (snd (add_nft_to_inventory d1 uid nid cid)) = users d1
   \<and> (users (snd (get_or_create_user d1 tid uname fname lname)) = users d1
      \<or> (\<exists>new. users (snd (get_or_create_user d1 tid uname fname lname)) = users d1 @ [new]
               \<and> stars_balance new = 1000 \<and> total_spent_stars new = 0))"
proof (intro conjI impI)
  assume "step\<^sup>*\<^sup>* d0 d \<and> balances_nonneg d0 \<and> prices_nonneg d0"
  then show "balances_nonneg d" using steps_invariant[of d0 d] by blast
next
  show "users (snd (add_nft_to_inventory d1 uid nid cid)) = users d1"
    using add_nft_to_inventory_frame[of d1 uid nid cid] by blast
next
  show "users (snd (get_or_create_user d1 tid uname fname lname)) = users d1
      \<or> (\<exists>new. users (snd (get_or_create_user d1 tid uname fname lname)) = users d1 @ [new]
               \<and> stars_balance new = 1000 \<and> total_spent_stars new = 0)"
    using get_or_create_user_users[of d1 tid uname fname lname] by blast
qed

text \<open>
  C6 on a run from the example tables: a new user is created, then an entry is sold.
\<close>

theorem balances_nonneg_invariant_witness:
  "balances_nonneg example_db \<and> prices_nonneg example_db
   \<and> balances_nonneg (snd (sell_nft (snd (get_or_create_user example_db 43 None None None)) 5 1))"
proof -
  let ?d1 = "snd (get_or_create_user example_db 43 None None None)"
  let ?d2 = "snd (sell_nft ?d1 5 1)"
  have s1: "step example_db ?d1" by (rule step_create)
  have s2: "step ?d1 ?d2" by (rule step_sell)
  have h: "step\<^sup>*\<^sup>* example_db ?d2"
  proof -
    have "step\<^sup>*\<^sup>* example_db ?d1" using s1 by (rule r_into_rtranclp[where r = step])
    then show ?thesis using s2 by (rule rtranclp.rtrancl_into_rtrancl[where r = step])
  qed
  from balances_nonneg_invariant[of example_db ?d2] h example_db_invariants
  show ?thesis by blast
qed

text \<open>
  Claim C10. When a user with the telegram id exists, \<open>get_or_create_user\<close> returns a
  stored user with that id and the tables as they were, whatever names the call supplies;
  with telegram ids unique, as the column constraint demands, it is that user.
\<close>

theorem get_or_create_user_existing:
  assumes "u \<in> set (users d)" and "telegram_id u = tid"
  shows "\<exists>u'. get_or_create_user d tid uname fname lname = (u', d)
            \<and> u' \<in> set (users d) \<and> telegram_id u' = tid
            \<and> (distinct (map telegram_id (users d)) \<longrightarrow> u' = u)"
proof -
  have "find (\<lambda>x. telegram_id x = tid) (users d) \<noteq> None"
    using assms by (auto simp: find_None_iff_set)
  then obtain u' where f: "find (\<lambda>x. telegram_id x = tid) (users d) = Some u'" by auto
  have m: "u' \<in> set (users d)" "telegram_id u' = tid" using find_SomeD[OF f] by simp_all
  have "u' = u" if "distinct (map telegram_id (users d))"
  proof -
    have "inj_on telegram_id (set (users d))" using that by (simp add: distinct_map)
    then show ?thesis using m assms by (auto dest: inj_onD)
  qed
  moreover have "get_or_create_user d tid uname fname lname = (u', d)"
    by (simp add: get_or_create_user_def f)
  ultimately show ?thesis using m by blast
qed

text \<open>
  C10 on the example tables: the call supplies other names, and the stored user with
  balance 100 and username \<open>ann\<close> is returned unchanged.
\<close>

theorem get_or_create_user_existing_witness:
  "get_or_create_user example_db 42 (Some ''bob'') (Some ''Bob'') None
     = (hd (users example_db), example_db)
   \<and> stars_balance (hd (users example_db)) = 100
   \<and> username (hd (users example_db)) = Some ''ann''"
proof -
  have h1: "hd (users example_db) \<in> set (users example_db)" by (simp add: example_db_def)
  have h2: "telegram_id (hd (users example_db)) = 42" by (simp add: example_db_def)
  have h3: "distinct (map telegram_id (users example_db))" by (simp add: example_db_def)
  from get_or_create_user_existing[OF h1 h2, of "Some ''bob''" "Some ''Bob''" None] h3
  have "get_or_create_user example_db 42 (Some ''bob'') (Some ''Bob'') None
          = (hd (users example_db), example_db)" by auto
  then show ?thesis by (simp add: example_db_def)
qed

end
